theory Spec2Isabelle
  imports Main "HOL-Library.Sublist"
begin

section \<open>The store of \<^verbatim>\<open>database.py\<close>\<close>

text \<open>
  \<^verbatim>\<open>Database\<close> keeps four SQLite tables. A table is the list of its rows in
  insertion order; a column declared without \<^verbatim>\<open>NOT NULL\<close> holds an option, \<open>None\<close>
  being SQL's \<^verbatim>\<open>NULL\<close>. Python's \<^verbatim>\<open>int\<close> is \<open>int\<close>, a \<^verbatim>\<open>str\<close> is the list of its
  characters. \<^verbatim>\<open>CURRENT_TIMESTAMP\<close> is read once by every statement that mentions it,
  so an operation takes one timestamp for each such statement it runs.
  The three \<^verbatim>\<open>AUTOINCREMENT\<close> tables have their counter of \<^verbatim>\<open>sqlite_sequence\<close>
  in the store. The code never switches \<^verbatim>\<open>PRAGMA foreign_keys\<close> on, so the
  \<^verbatim>\<open>FOREIGN KEY\<close> clauses are not enforced and are not part of the model.
\<close>

type_synonym timestamp = string

record user_row =
  u_user_id :: int
  u_username :: "string option"
  u_first_name :: "string option"
  u_last_name :: "string option"
  u_created_at :: "timestamp option"

record pendrive_row =
  p_id :: int
  p_name :: string
  p_description :: "string option"
  p_current_owner_id :: "int option"
  p_created_at :: "timestamp option"

record request_row =
  r_id :: int
  r_pendrive_id :: int
  r_requester_id :: int
  r_current_owner_id :: int
  r_status :: "string option"
  r_message :: "string option"
  r_created_at :: "timestamp option"
  r_resolved_at :: "timestamp option"

record transaction_row =
  t_id :: int
  t_pendrive_id :: int
  t_from_user_id :: "int option"
  t_to_user_id :: int
  t_transaction_type :: string
  t_created_at :: "timestamp option"

record database =
  users :: "user_row list"
  pendrives :: "pendrive_row list"
  requests :: "request_row list"
  transactions :: "transaction_row list"
  seq_pendrives :: int
  seq_requests :: int
  seq_transactions :: int

text \<open>\<^verbatim>\<open>init_database\<close> on a fresh file: four empty tables, no counter used yet.\<close>

definition init_database :: database where
  "init_database =
     \<lparr>users = [], pendrives = [], requests = [], transactions = [],
      seq_pendrives = 0, seq_requests = 0, seq_transactions = 0\<rparr>"

text \<open>
  The row id SQLite gives to an insert into an \<^verbatim>\<open>AUTOINCREMENT\<close> table: one more than
  the largest of the table's counter and the ids present.
\<close>

definition next_rowid :: "int \<Rightarrow> int list \<Rightarrow> int" where
  "next_rowid seq ids = foldr max ids seq + 1"

datatype sqlite_error = IntegrityError

subsection \<open>Users\<close>

text \<open>\<^verbatim>\<open>INSERT OR REPLACE\<close>: a row with the same primary key is deleted first.\<close>

definition add_user ::
  "database \<Rightarrow> timestamp \<Rightarrow> int \<Rightarrow> string option \<Rightarrow> string option \<Rightarrow> string option \<Rightarrow> database"
where
  "add_user db now user_id username first_name last_name =
     db\<lparr>users := filter (\<lambda>u. u_user_id u \<noteq> user_id) (users db) @
        [\<lparr>u_user_id = user_id, u_username = username, u_first_name = first_name,
          u_last_name = last_name, u_created_at = Some now\<rparr>]\<rparr>"

subsection \<open>Items\<close>

text \<open>
  The first statement of \<^verbatim>\<open>add_dgsc\<close>. The column \<^verbatim>\<open>name\<close> is \<^verbatim>\<open>UNIQUE\<close> under the
  default binary collation: a row with the very same string makes the insert raise
  \<^verbatim>\<open>sqlite3.IntegrityError\<close>. Otherwise the row is stored and its id is
  \<^verbatim>\<open>cursor.lastrowid\<close>.
\<close>

definition insert_pendrive ::
  "database \<Rightarrow> timestamp \<Rightarrow> string \<Rightarrow> string \<Rightarrow> int \<Rightarrow> sqlite_error + (int \<times> database)"
where
  "insert_pendrive db now name description owner_id =
     (if name \<in> set (map p_name (pendrives db)) then Inl IntegrityError
      else
        let dgsc_id = next_rowid (seq_pendrives db) (map p_id (pendrives db)) in
        Inr (dgsc_id,
             db\<lparr>pendrives := pendrives db @
                  [\<lparr>p_id = dgsc_id, p_name = name, p_description = Some description,
                    p_current_owner_id = Some owner_id, p_created_at = Some now\<rparr>],
                seq_pendrives := dgsc_id\<rparr>))"

definition insert_transaction ::
  "database \<Rightarrow> timestamp \<Rightarrow> int \<Rightarrow> int option \<Rightarrow> int \<Rightarrow> string \<Rightarrow> database"
where
  "insert_transaction db now pendrive_id from_user_id to_user_id transaction_type =
     (let tid = next_rowid (seq_transactions db) (map t_id (transactions db)) in
      db\<lparr>transactions := transactions db @
           [\<lparr>t_id = tid, t_pendrive_id = pendrive_id, t_from_user_id = from_user_id,
             t_to_user_id = to_user_id, t_transaction_type = transaction_type,
             t_created_at = Some now\<rparr>],
         seq_transactions := tid\<rparr>)"

text \<open>
  \<^verbatim>\<open>add_dgsc\<close>: on \<^verbatim>\<open>IntegrityError\<close> the connection is closed without a commit, so
  the store is the one before the call, and the result is \<^verbatim>\<open>False\<close>.
\<close>

definition add_dgsc ::
  "database \<Rightarrow> timestamp \<Rightarrow> timestamp \<Rightarrow> string \<Rightarrow> string \<Rightarrow> int \<Rightarrow> bool \<times> database"
where
  "add_dgsc db now1 now2 name description owner_id =
     (case insert_pendrive db now1 name description owner_id of
        Inl IntegrityError \<Rightarrow> (False, db)
      | Inr (dgsc_id, db1) \<Rightarrow>
          (True, insert_transaction db1 now2 dgsc_id None owner_id ''initial_assignment''))"


subsection \<open>Searching\<close>

text \<open>
  SQLite's \<^verbatim>\<open>LIKE\<close>: \<^verbatim>\<open>%\<close> in the pattern stands for any run of characters, \<^verbatim>\<open>_\<close> for
  any one character, and any other character stands for itself, the letters A to Z
  of ASCII also for their lower-case forms and conversely. \<^verbatim>\<open>NULL LIKE p\<close> is
  \<^verbatim>\<open>NULL\<close>, which a \<^verbatim>\<open>WHERE\<close> clause treats as false. SQLite folds the case through
  a table, as \<open>sqlite_tolower\<close> does. Strings are taken without the character NUL,
  where SQLite's matcher stops reading, and patterns within SQLite's length limit.
\<close>

definition sqlite_tolower :: "char \<Rightarrow> char" where
  "sqlite_tolower c =
     (case map_of (zip ''ABCDEFGHIJKLMNOPQRSTUVWXYZ'' ''abcdefghijklmnopqrstuvwxyz'') c of
        Some l \<Rightarrow> l
      | None \<Rightarrow> c)"

fun like :: "string \<Rightarrow> string \<Rightarrow> bool" where
  "like [] s = (s = [])"
| "like (c # p) [] = (c = CHR ''%'' \<and> like p [])"
| "like (c # p) (d # s) =
     (if c = CHR ''%'' then like p (d # s) \<or> like (c # p) s
      else (c = CHR ''_'' \<or> sqlite_tolower c = sqlite_tolower d) \<and> like p s)"

definition like_null :: "string option \<Rightarrow> string \<Rightarrow> bool" where
  "like_null v pat = (case v of None \<Rightarrow> False | Some s \<Rightarrow> like pat s)"

text \<open>
  \<^verbatim>\<open>pendrives p LEFT JOIN users u ON p.current_owner_id = u.user_id\<close>: every item
  row once for each user row with the owner's id, and once with no user when there
  is none.
\<close>

definition left_join_users :: "database \<Rightarrow> pendrive_row \<Rightarrow> (pendrive_row \<times> user_row option) list" where
  "left_join_users db p =
     (case filter (\<lambda>u. p_current_owner_id p = Some (u_user_id u)) (users db) of
        [] \<Rightarrow> [(p, None)]
      | us \<Rightarrow> map (\<lambda>u. (p, Some u)) us)"

record search_row =
  sr_id :: int
  sr_name :: string
  sr_description :: "string option"
  sr_current_owner_id :: "int option"
  sr_username :: "string option"
  sr_first_name :: "string option"
  sr_last_name :: "string option"

definition select_search_row :: "pendrive_row \<times> user_row option \<Rightarrow> search_row" where
  "select_search_row pu =
     (case pu of (p, u) \<Rightarrow>
        \<lparr>sr_id = p_id p, sr_name = p_name p, sr_description = p_description p,
         sr_current_owner_id = p_current_owner_id p,
         sr_username = Option.bind u u_username,
         sr_first_name = Option.bind u u_first_name,
         sr_last_name = Option.bind u u_last_name\<rparr>)"

text \<open>\<^verbatim>\<open>search_dgsc\<close> binds the pattern \<^verbatim>\<open>f'%{search_term}%'\<close> to both placeholders.\<close>

definition search_dgsc :: "database \<Rightarrow> string \<Rightarrow> search_row list" where
  "search_dgsc db search_term =
     (let pat = ''%'' @ search_term @ ''%'' in
      map select_search_row
        (filter (\<lambda>(p, u). like pat (p_name p) \<or> like_null (p_description p) pat)
           (concat (map (left_join_users db) (pendrives db)))))"


subsection \<open>Requests\<close>

text \<open>
  \<^verbatim>\<open>create_request\<close>: one insert; \<^verbatim>\<open>status\<close> takes its default \<^verbatim>\<open>'pending'\<close>,
  \<^verbatim>\<open>created_at\<close> the time of the statement, \<^verbatim>\<open>resolved_at\<close> stays \<^verbatim>\<open>NULL\<close>. No
  constraint of the table can reject the row, and the function has no other exit.
\<close>

definition create_request ::
  "database \<Rightarrow> timestamp \<Rightarrow> int \<Rightarrow> int \<Rightarrow> int \<Rightarrow> string \<Rightarrow> int \<times> database"
where
  "create_request db now dgsc_id requester_id current_owner_id message =
     (let request_id = next_rowid (seq_requests db) (map r_id (requests db)) in
      (request_id,
       db\<lparr>requests := requests db @
            [\<lparr>r_id = request_id, r_pendrive_id = dgsc_id, r_requester_id = requester_id,
              r_current_owner_id = current_owner_id, r_status = Some ''pending'',
              r_message = Some message, r_created_at = Some now, r_resolved_at = None\<rparr>],
          seq_requests := request_id\<rparr>))"

text \<open>
  \<^verbatim>\<open>accept_request\<close>: the \<^verbatim>\<open>SELECT\<close> with \<^verbatim>\<open>fetchone\<close> takes the first pending row
  with the id; without one the function returns \<^verbatim>\<open>False\<close> before any write. Then
  two updates, each on every row with the id it names, and the insert of the transfer.
\<close>

definition accept_request :: "database \<Rightarrow> timestamp \<Rightarrow> timestamp \<Rightarrow> int \<Rightarrow> bool \<times> database" where
  "accept_request db now1 now2 request_id =
     (case find (\<lambda>r. r_id r = request_id \<and> r_status r = Some ''pending'') (requests db) of
        None \<Rightarrow> (False, db)
      | Some result \<Rightarrow>
          let dgsc_id = r_pendrive_id result;
              requester_id = r_requester_id result;
              current_owner_id = r_current_owner_id result;
              db1 = db\<lparr>pendrives :=
                      map (\<lambda>p. if p_id p = dgsc_id
                                then p\<lparr>p_current_owner_id := Some requester_id\<rparr> else p)
                        (pendrives db)\<rparr>;
              db2 = db1\<lparr>requests :=
                      map (\<lambda>r. if r_id r = request_id
                                then r\<lparr>r_status := Some ''accepted'', r_resolved_at := Some now1\<rparr>
                                else r)
                        (requests db1)\<rparr>
          in (True, insert_transaction db2 now2 dgsc_id (Some current_owner_id) requester_id ''transfer''))"

text \<open>
  \<^verbatim>\<open>reject_request\<close>: one guarded update; the result is whether
  \<^verbatim>\<open>cursor.rowcount\<close>, the number of rows it changed, is positive.
\<close>

definition reject_request :: "database \<Rightarrow> timestamp \<Rightarrow> int \<Rightarrow> bool \<times> database" where
  "reject_request db now request_id =
     (let hit = (\<lambda>r. r_id r = request_id \<and> r_status r = Some ''pending'');
          affected_rows = length (filter hit (requests db))
      in (affected_rows > 0,
          db\<lparr>requests :=
               map (\<lambda>r. if hit r
                         then r\<lparr>r_status := Some ''rejected'', r_resolved_at := Some now\<rparr>
                         else r)
                 (requests db)\<rparr>))"

text \<open>
  \<^verbatim>\<open>get_pending_requests_for_user\<close>: the inner joins keep a request once for every item
  row with its item id and every user row with its requester id; the columns selected
  are the request id, the item id and name, the requester's id, \<^verbatim>\<open>username\<close> and
  \<^verbatim>\<open>first_name\<close>, the message and the creation time.
\<close>

type_synonym pending_row =
  "int \<times> int \<times> string \<times> int \<times> string option \<times> string option \<times> string option \<times> timestamp option"

definition get_pending_requests_for_user :: "database \<Rightarrow> int \<Rightarrow> pending_row list" where
  "get_pending_requests_for_user db user_id =
     concat (map (\<lambda>r.
       concat (map (\<lambda>p.
         map (\<lambda>u. (r_id r, r_pendrive_id r, p_name p, r_requester_id r,
                    u_username u, u_first_name u, r_message r, r_created_at r))
           (filter (\<lambda>u. r_requester_id r = u_user_id u) (users db)))
         (filter (\<lambda>p. r_pendrive_id r = p_id p) (pendrives db))))
       (filter (\<lambda>r. r_current_owner_id r = user_id \<and> r_status r = Some ''pending'')
          (requests db)))"

section \<open>Display names in \<^verbatim>\<open>bot.py\<close>\<close>

text \<open>
  \<^verbatim>\<open>str.strip()\<close> removes white space at both ends; among the characters below 256
  Python counts as white space 9 to 13, 28 to 32, 133 and 160.
\<close>

definition py_isspace :: "char \<Rightarrow> bool" where
  "py_isspace c =
     (let n = (of_char c :: nat) in
      (9 \<le> n \<and> n \<le> 13) \<or> (28 \<le> n \<and> n \<le> 32) \<or> n = 133 \<or> n = 160)"

definition strip :: "string \<Rightarrow> string" where
  "strip s = rev (dropWhile py_isspace (rev (dropWhile py_isspace s)))"

text \<open>
  The test \<^verbatim>\<open>x and x.strip()\<close> of the handlers: \<^verbatim>\<open>None\<close> and the empty string are
  false, and so is a string of white space only. When the test holds, the name shown
  is \<^verbatim>\<open>x.strip()\<close>, returned here.
\<close>

definition and_strip :: "string option \<Rightarrow> string option" where
  "and_strip x =
     (case x of
        None \<Rightarrow> None
      | Some s \<Rightarrow> if s \<noteq> [] \<and> strip s \<noteq> [] then Some (strip s) else None)"

text \<open>Python's \<^verbatim>\<open>str\<close> of an integer, as the f-string \<^verbatim>\<open>f"User {owner_id}"\<close> formats it.\<close>

fun digits :: "nat \<Rightarrow> string" where
  "digits n =
     (if n < 10 then [''0123456789'' ! n]
      else digits (n div 10) @ [''0123456789'' ! (n mod 10)])"

declare digits.simps [simp del]

definition str_int :: "int \<Rightarrow> string" where
  "str_int i = (if i < 0 then CHR ''-'' # digits (nat (- i)) else digits (nat i))"

definition str_opt_int :: "int option \<Rightarrow> string" where
  "str_opt_int v = (case v of None \<Rightarrow> ''None'' | Some i \<Rightarrow> str_int i)"

text \<open>
  The owner's name in \<^verbatim>\<open>search_command\<close>, from a row of \<^verbatim>\<open>search_dgsc\<close>. The
  owner id comes from a nullable column.
\<close>

definition search_command_owner_display ::
  "int option \<Rightarrow> string option \<Rightarrow> string option \<Rightarrow> string option \<Rightarrow> string"
where
  "search_command_owner_display owner_id username first_name last_name =
     (case and_strip first_name of
        Some d \<Rightarrow> d
      | None \<Rightarrow>
          (case and_strip username of
             Some d \<Rightarrow> d
           | None \<Rightarrow>
               (case and_strip last_name of
                  Some d \<Rightarrow> d
                | None \<Rightarrow> ''User '' @ str_opt_int owner_id)))"

text \<open>\<^verbatim>\<open>list_all_items_command\<close> repeats the same chain on a row of \<^verbatim>\<open>get_all_dgscs\<close>.\<close>

definition list_all_items_owner_display ::
  "int option \<Rightarrow> string option \<Rightarrow> string option \<Rightarrow> string option \<Rightarrow> string"
where
  "list_all_items_owner_display owner_id username first_name last_name =
     (case and_strip first_name of
        Some d \<Rightarrow> d
      | None \<Rightarrow>
          (case and_strip username of
             Some d \<Rightarrow> d
           | None \<Rightarrow>
               (case and_strip last_name of
                  Some d \<Rightarrow> d
                | None \<Rightarrow> ''User '' @ str_opt_int owner_id)))"

text \<open>
  \<^verbatim>\<open>my_requests_command\<close>: a row of \<^verbatim>\<open>get_user_requests\<close> carries the owner's id
  (a \<^verbatim>\<open>NOT NULL\<close> column), \<^verbatim>\<open>username\<close> and \<^verbatim>\<open>first_name\<close>, and no \<^verbatim>\<open>last_name\<close>.
\<close>

definition my_requests_owner_display :: "int \<Rightarrow> string option \<Rightarrow> string option \<Rightarrow> string" where
  "my_requests_owner_display owner_id owner_username owner_first_name =
     (case and_strip owner_first_name of
        Some d \<Rightarrow> d
      | None \<Rightarrow>
          (case and_strip owner_username of
             Some d \<Rightarrow> d
           | None \<Rightarrow> ''User '' @ str_int owner_id))"

text \<open>\<^verbatim>\<open>pending_requests_command\<close>, on a row of \<^verbatim>\<open>get_pending_requests_for_user\<close>.\<close>

definition pending_requests_requester_display ::
  "int \<Rightarrow> string option \<Rightarrow> string option \<Rightarrow> string"
where
  "pending_requests_requester_display requester_id requester_username requester_first_name =
     (case and_strip requester_first_name of
        Some d \<Rightarrow> d
      | None \<Rightarrow>
          (case and_strip requester_username of
             Some d \<Rightarrow> d
           | None \<Rightarrow> ''User '' @ str_int requester_id))"

text \<open>The names the two commands show, one for each row of their query.\<close>

definition search_command_owner_displays :: "database \<Rightarrow> string \<Rightarrow> string list" where
  "search_command_owner_displays db search_term =
     map (\<lambda>row. search_command_owner_display (sr_current_owner_id row) (sr_username row)
                   (sr_first_name row) (sr_last_name row))
       (search_dgsc db search_term)"

definition pending_requests_requester_displays :: "database \<Rightarrow> int \<Rightarrow> string list" where
  "pending_requests_requester_displays db user_id =
     map (\<lambda>(req_id, dgsc_id, dgsc_name, requester_id, requester_username,
              requester_first_name, message, created_at).
            pending_requests_requester_display requester_id requester_username
              requester_first_name)
       (get_pending_requests_for_user db user_id)"

subsection \<open>Reachable stores\<close>

text \<open>
  The calls of \<^verbatim>\<open>Database\<close> that write, each with the timestamps its statements
  read. A store is reachable when a sequence of such calls produces it from the
  empty one.
\<close>

datatype command =
    Add_user timestamp int "string option" "string option" "string option"
  | Add_dgsc timestamp timestamp string string int
  | Create_request timestamp int int int string
  | Accept_request timestamp timestamp int
  | Reject_request timestamp int

fun step :: "database \<Rightarrow> command \<Rightarrow> database" where
  "step db (Add_user now uid un fn ln) = add_user db now uid un fn ln"
| "step db (Add_dgsc now1 now2 name description owner_id) =
     snd (add_dgsc db now1 now2 name description owner_id)"
| "step db (Create_request now dgsc_id requester_id owner_id message) =
     snd (create_request db now dgsc_id requester_id owner_id message)"
| "step db (Accept_request now1 now2 request_id) = snd (accept_request db now1 now2 request_id)"
| "step db (Reject_request now request_id) = snd (reject_request db now request_id)"

definition run :: "database \<Rightarrow> command list \<Rightarrow> database" where
  "run db cs = foldl step db cs"

inductive reachable :: "database \<Rightarrow> bool" where
  reachable_init: "reachable init_database"
| reachable_step: "reachable db \<Longrightarrow> reachable (step db c)"

section \<open>Row ids\<close>

lemma foldr_max_ge: "i \<in> set ids \<Longrightarrow> i \<le> foldr max ids (seq :: int)"
  by (induction ids) auto

lemma next_rowid_fresh: "i \<in> set ids \<Longrightarrow> i < next_rowid seq ids"
  using foldr_max_ge [of i ids seq] by (simp add: next_rowid_def)

lemma next_rowid_notin: "next_rowid seq ids \<notin> set ids"
  using next_rowid_fresh [of "next_rowid seq ids" ids seq] by auto

section \<open>Lists of rows\<close>

lemma map_r_id_resolve:
  "map r_id (map (\<lambda>q. if P q then q\<lparr>r_status := s, r_resolved_at := t\<rparr> else q) xs) = map r_id xs"
  by (induction xs) simp_all

lemma find_unique:
  assumes "r \<in> set xs" "P r" "\<forall>x\<in>set xs. P x \<longrightarrow> x = r"
  shows "find P xs = Some r"
proof -
  from assms(1,2) have "find P xs \<noteq> None"
    unfolding find_None_iff by blast
  then obtain y where y: "find P xs = Some y" by blast
  then have "P y \<and> y \<in> set xs"
    unfolding find_Some_iff by (metis nth_mem)
  with assms(3) have "y = r" by blast
  with y show ?thesis by (simp only:)
qed

lemma distinct_map_eq:
  assumes "distinct (map f xs)" "x \<in> set xs" "y \<in> set xs" "f x = f y"
  shows "x = y"
proof -
  from assms(1) have "inj_on f (set xs)" by (simp add: distinct_map)
  with assms(2-4) show ?thesis unfolding inj_on_def by blast
qed

lemma find_None_iff_no: "find P xs = None \<longleftrightarrow> (\<forall>x\<in>set xs. \<not> P x)"
  by (induction xs) auto

lemma map_upd_only:
  assumes "distinct (map f xs)" "r \<in> set xs"
  shows "map (\<lambda>q. if f q = f r then g q else q) xs = map (\<lambda>q. if q = r then g r else q) xs"
proof (rule map_cong [OF refl])
  fix q
  assume "q \<in> set xs"
  with assms distinct_map_eq [of f xs q r] have "f q = f r \<longleftrightarrow> q = r" by blast
  then show "(if f q = f r then g q else q) = (if q = r then g r else q)" by auto
qed

section \<open>What the request operations write\<close>

lemma accept_request_found:
  assumes d: "distinct (map r_id (requests db))"
    and r: "r \<in> set (requests db)" "r_status r = Some ''pending''"
  shows "accept_request db now1 now2 (r_id r) =
    (True,
     db\<lparr>pendrives :=
          map (\<lambda>p. if p_id p = r_pendrive_id r
                    then p\<lparr>p_current_owner_id := Some (r_requester_id r)\<rparr> else p)
            (pendrives db),
        requests :=
          map (\<lambda>q. if q = r
                    then r\<lparr>r_status := Some ''accepted'', r_resolved_at := Some now1\<rparr> else q)
            (requests db),
        transactions := transactions db @
          [\<lparr>t_id = next_rowid (seq_transactions db) (map t_id (transactions db)),
            t_pendrive_id = r_pendrive_id r, t_from_user_id = Some (r_current_owner_id r),
            t_to_user_id = r_requester_id r, t_transaction_type = ''transfer'',
            t_created_at = Some now2\<rparr>],
        seq_transactions := next_rowid (seq_transactions db) (map t_id (transactions db))\<rparr>)"
proof -
  have f: "find (\<lambda>q. r_id q = r_id r \<and> r_status q = Some ''pending'') (requests db) = Some r"
  proof (rule find_unique)
    show "\<forall>x\<in>set (requests db). r_id x = r_id r \<and> r_status x = Some ''pending'' \<longrightarrow> x = r"
    proof (intro ballI impI)
      fix x
      assume "x \<in> set (requests db)" "r_id x = r_id r \<and> r_status x = Some ''pending''"
      then show "x = r" using distinct_map_eq [OF d _ r(1), of x] by simp
    qed
    show "r \<in> set (requests db)" by (rule r(1))
    show "r_id r = r_id r \<and> r_status r = Some ''pending''" using r(2) by simp
  qed
  have m: "map (\<lambda>q. if r_id q = r_id r
                     then q\<lparr>r_status := Some ''accepted'', r_resolved_at := Some now1\<rparr> else q)
             (requests db) =
           map (\<lambda>q. if q = r
                     then r\<lparr>r_status := Some ''accepted'', r_resolved_at := Some now1\<rparr> else q)
             (requests db)"
    using d r(1) by (rule map_upd_only)
  show ?thesis
    by (simp add: accept_request_def f insert_transaction_def Let_def m)
qed

lemma accept_request_not_found:
  assumes "\<forall>q\<in>set (requests db). \<not> (r_id q = rid \<and> r_status q = Some ''pending'')"
  shows "accept_request db now1 now2 rid = (False, db)"
proof -
  have "find (\<lambda>q. r_id q = rid \<and> r_status q = Some ''pending'') (requests db) = None"
    using assms by (simp add: find_None_iff_no)
  then show ?thesis by (simp add: accept_request_def)
qed

lemma requests_add_user [simp]: "requests (add_user db now uid un fn ln) = requests db"
  by (simp add: add_user_def)

lemma requests_add_dgsc [simp]: "requests (snd (add_dgsc db n1 n2 name d ow)) = requests db"
  by (simp add: add_dgsc_def insert_pendrive_def insert_transaction_def Let_def)

lemma requests_create_request:
  "requests (snd (create_request db now i rq ow m)) =
     requests db @
       [\<lparr>r_id = next_rowid (seq_requests db) (map r_id (requests db)),
         r_pendrive_id = i, r_requester_id = rq, r_current_owner_id = ow,
         r_status = Some ''pending'', r_message = Some m, r_created_at = Some now,
         r_resolved_at = None\<rparr>]"
  by (simp add: create_request_def Let_def)

lemma requests_accept_request:
  "requests (snd (accept_request db n1 n2 rid)) = requests db \<or>
   requests (snd (accept_request db n1 n2 rid)) =
     map (\<lambda>q. if r_id q = rid
               then q\<lparr>r_status := Some ''accepted'', r_resolved_at := Some n1\<rparr> else q)
       (requests db)"
  by (simp add: accept_request_def insert_transaction_def Let_def split: option.splits)

lemma requests_reject_request:
  "requests (snd (reject_request db now rid)) =
     map (\<lambda>q. if r_id q = rid \<and> r_status q = Some ''pending''
               then q\<lparr>r_status := Some ''rejected'', r_resolved_at := Some now\<rparr> else q)
       (requests db)"
  by (simp add: reject_request_def Let_def)

lemma map_r_id_accept_request:
  "map r_id (requests (snd (accept_request db n1 n2 rid))) = map r_id (requests db)"
  using requests_accept_request [of db n1 n2 rid]
proof
  assume "requests (snd (accept_request db n1 n2 rid)) = requests db"
  then show ?thesis by (simp only:)
next
  assume "requests (snd (accept_request db n1 n2 rid)) =
     map (\<lambda>q. if r_id q = rid
               then q\<lparr>r_status := Some ''accepted'', r_resolved_at := Some n1\<rparr> else q)
       (requests db)"
  then show ?thesis by (simp only: map_r_id_resolve)
qed

lemma map_r_id_reject_request:
  "map r_id (requests (snd (reject_request db now rid))) = map r_id (requests db)"
  by (simp only: requests_reject_request map_r_id_resolve)

lemma map_r_id_step:
  "map r_id (requests (step db c)) = map r_id (requests db) \<or>
   (\<exists>q. requests (step db c) = requests db @ [q] \<and>
        r_id q = next_rowid (seq_requests db) (map r_id (requests db)))"
proof (cases c)
  case (Add_user n uid un fn ln)
  then show ?thesis by simp
next
  case (Add_dgsc n1 n2 name d ow)
  then show ?thesis by simp
next
  case (Create_request n i rq ow m)
  have "\<exists>q. requests (snd (create_request db n i rq ow m)) = requests db @ [q] \<and>
        r_id q = next_rowid (seq_requests db) (map r_id (requests db))"
    unfolding requests_create_request by simp
  with Create_request show ?thesis by simp
next
  case (Accept_request n1 n2 rid)
  then show ?thesis by (simp add: map_r_id_accept_request)
next
  case (Reject_request n rid)
  then show ?thesis by (simp add: map_r_id_reject_request)
qed

section \<open>Request ids are unique in every reachable store\<close>

lemma reachable_distinct_request_ids:
  "reachable db \<Longrightarrow> distinct (map r_id (requests db))"
proof (induction rule: reachable.induct)
  case reachable_init
  show ?case by (simp add: init_database_def)
next
  case (reachable_step db c)
  from map_r_id_step [of db c] show ?case
  proof
    assume "map r_id (requests (step db c)) = map r_id (requests db)"
    with reachable_step.IH show ?thesis by simp
  next
    assume "\<exists>q. requests (step db c) = requests db @ [q] \<and>
        r_id q = next_rowid (seq_requests db) (map r_id (requests db))"
    then obtain q where "requests (step db c) = requests db @ [q]"
      "r_id q = next_rowid (seq_requests db) (map r_id (requests db))" by blast
    with reachable_step.IH next_rowid_notin [of "seq_requests db" "map r_id (requests db)"]
    show ?thesis by simp
  qed
qed

section \<open>Registering items\<close>





section \<open>Creating requests\<close>



section \<open>Rejecting requests\<close>


lemma map_no_hit: "\<forall>x\<in>set xs. \<not> P x \<Longrightarrow> map (\<lambda>x. if P x then g x else x) xs = xs"
  by (induction xs) simp_all



section \<open>Accepting requests\<close>



lemmas store_defs =
  run_def add_user_def add_dgsc_def insert_pendrive_def insert_transaction_def
  create_request_def accept_request_def reject_request_def init_database_def next_rowid_def


subsection \<open>Requests of the recorded owner\<close>

lemma map_owner_same:
  "\<forall>p\<in>set ps. P p \<longrightarrow> p_current_owner_id p = v \<Longrightarrow>
   map (\<lambda>p. if P p then p\<lparr>p_current_owner_id := v\<rparr> else p) ps = ps"
  by (induction ps) simp_all

text \<open>
  Claim C10 as stated fails: the owner recorded in a request is not compared with the
  item's owner when the request is accepted. User 1 registers item 1 and requests it
  (request 1), user 2 requests it as well (request 2) and request 2 is accepted, so the
  item is with user 2. Request 1 is still pending with requester and recorded owner
  both user 1; accepting it returns \<^verbatim>\<open>True\<close> and moves the item from user 2 to user 1.
\<close>

theorem accept_self_request_stale_owner_counterexample:
  "map p_current_owner_id (pendrives (run init_database
      [Add_dgsc ''t'' ''t'' ''A'' '''' 1, Create_request ''t'' 1 1 1 '''',
       Create_request ''t'' 1 2 1 '''', Accept_request ''t'' ''t'' 2])) = [Some 2] \<and>
   map (\<lambda>q. (r_id q, r_pendrive_id q, r_requester_id q, r_current_owner_id q, r_status q))
     (requests (run init_database
      [Add_dgsc ''t'' ''t'' ''A'' '''' 1, Create_request ''t'' 1 1 1 '''',
       Create_request ''t'' 1 2 1 '''', Accept_request ''t'' ''t'' 2])) =
     [(1, 1, 1, 1, Some ''pending''), (2, 1, 2, 1, Some ''accepted'')] \<and>
   fst (accept_request (run init_database
      [Add_dgsc ''t'' ''t'' ''A'' '''' 1, Create_request ''t'' 1 1 1 '''',
       Create_request ''t'' 1 2 1 '''', Accept_request ''t'' ''t'' 2]) ''t'' ''t'' 1) = True \<and>
   map p_current_owner_id (pendrives (snd (accept_request (run init_database
      [Add_dgsc ''t'' ''t'' ''A'' '''' 1, Create_request ''t'' 1 1 1 '''',
       Create_request ''t'' 1 2 1 '''', Accept_request ''t'' ''t'' 2]) ''t'' ''t'' 1))) = [Some 1]"
  by (simp add: store_defs)

text \<open>
  Claim C10, amended. In a reachable store, accepting a pending request whose requester
  is its recorded owner returns \<^verbatim>\<open>True\<close>, writes the requester as current owner of the
  item, which leaves the items as they were whenever the item is still with the recorded
  owner, marks the request accepted with the resolution time, and appends one
  \<^verbatim>\<open>transfer\<close> row whose from-user is its to-user.
\<close>

theorem accept_self_request:
  assumes "reachable db"
    and "r \<in> set (requests db)" "r_status r = Some ''pending''"
    and self: "r_requester_id r = r_current_owner_id r"
  shows "fst (accept_request db now1 now2 (r_id r)) = True \<and>
    pendrives (snd (accept_request db now1 now2 (r_id r))) =
      map (\<lambda>p. if p_id p = r_pendrive_id r
                then p\<lparr>p_current_owner_id := Some (r_requester_id r)\<rparr> else p)
        (pendrives db) \<and>
    ((\<forall>p\<in>set (pendrives db).
        p_id p = r_pendrive_id r \<longrightarrow> p_current_owner_id p = Some (r_current_owner_id r)) \<longrightarrow>
     pendrives (snd (accept_request db now1 now2 (r_id r))) = pendrives db) \<and>
    r\<lparr>r_status := Some ''accepted'', r_resolved_at := Some now1\<rparr>
      \<in> set (requests (snd (accept_request db now1 now2 (r_id r)))) \<and>
    transactions (snd (accept_request db now1 now2 (r_id r))) =
      transactions db @
        [\<lparr>t_id = next_rowid (seq_transactions db) (map t_id (transactions db)),
          t_pendrive_id = r_pendrive_id r, t_from_user_id = Some (r_requester_id r),
          t_to_user_id = r_requester_id r, t_transaction_type = ''transfer'',
          t_created_at = Some now2\<rparr>]"
proof -
  from assms(1) have d: "distinct (map r_id (requests db))"
    by (rule reachable_distinct_request_ids)
  note found = accept_request_found [OF d assms(2,3), of now1 now2]
  have same: "(\<forall>p\<in>set (pendrives db).
        p_id p = r_pendrive_id r \<longrightarrow> p_current_owner_id p = Some (r_current_owner_id r)) \<Longrightarrow>
      map (\<lambda>p. if p_id p = r_pendrive_id r
                then p\<lparr>p_current_owner_id := Some (r_current_owner_id r)\<rparr> else p)
        (pendrives db) = pendrives db"
    by (rule map_owner_same)
  have mem: "r\<lparr>r_status := Some ''accepted'', r_resolved_at := Some now1\<rparr>
      \<in> set (map (\<lambda>q. if q = r
                    then r\<lparr>r_status := Some ''accepted'', r_resolved_at := Some now1\<rparr> else q)
            (requests db))"
    using assms(2) by (simp add: image_iff)
  have unchanged: "(\<forall>p\<in>set (pendrives db).
        p_id p = r_pendrive_id r \<longrightarrow> p_current_owner_id p = Some (r_current_owner_id r)) \<longrightarrow>
      map (\<lambda>p. if p_id p = r_pendrive_id r
                then p\<lparr>p_current_owner_id := Some (r_requester_id r)\<rparr> else p)
        (pendrives db) = pendrives db"
    unfolding self using same by (rule impI)
  show ?thesis
    unfolding found using unchanged mem by (simp add: self)
qed

theorem accept_self_request_witness:
  "reachable (run init_database [Add_dgsc ''t1'' ''t2'' ''A'' '''' 1, Create_request ''t3'' 1 1 1 '''']) \<and>
   fst (accept_request
     (run init_database [Add_dgsc ''t1'' ''t2'' ''A'' '''' 1, Create_request ''t3'' 1 1 1 ''''])
     ''t4'' ''t5'' 1) = True \<and>
   pendrives (snd (accept_request
     (run init_database [Add_dgsc ''t1'' ''t2'' ''A'' '''' 1, Create_request ''t3'' 1 1 1 ''''])
     ''t4'' ''t5'' 1)) =
   pendrives (run init_database [Add_dgsc ''t1'' ''t2'' ''A'' '''' 1, Create_request ''t3'' 1 1 1 '''']) \<and>
   map (\<lambda>t. (t_transaction_type t, t_from_user_id t, t_to_user_id t)) (transactions (snd (accept_request
     (run init_database [Add_dgsc ''t1'' ''t2'' ''A'' '''' 1, Create_request ''t3'' 1 1 1 ''''])
     ''t4'' ''t5'' 1))) = [(''initial_assignment'', None, 1), (''transfer'', Some 1, 1)]"
proof -
  let ?c1 = "Add_dgsc ''t1'' ''t2'' ''A'' '''' 1"
  let ?c2 = "Create_request ''t3'' 1 1 1 ''''"
  let ?r = "\<lparr>r_id = 1, r_pendrive_id = 1, r_requester_id = 1, r_current_owner_id = 1,
             r_status = Some ''pending'', r_message = Some '''', r_created_at = Some ''t3'',
             r_resolved_at = None\<rparr>"
  have "reachable (step (step init_database ?c1) ?c2)"
    by (intro reachable.intros)
  then have reach: "reachable (run init_database [?c1, ?c2])"
    by (simp only: run_def foldl.simps)
  have r: "?r \<in> set (requests (run init_database [?c1, ?c2]))"
    by (simp add: store_defs)
  from reach accept_self_request [OF reach r, of "''t4''" "''t5''"]
  show ?thesis
    by (simp add: store_defs)
qed

section \<open>Display names\<close>

text \<open>
  Claim C4 as stated fails on its first example: with handle "jsmith", an empty given
  name and family name "Smith", \<^verbatim>\<open>search_command\<close> does not show "Smith". The chain
  tries the handle before the family name.
\<close>

theorem owner_display_family_name_counterexample:
  "search_command_owner_display (Some 7) (Some ''jsmith'') (Some '''') (Some ''Smith'') \<noteq> ''Smith''"
  by (simp add: search_command_owner_display_def and_strip_def strip_def py_isspace_def)

text \<open>
  Claim C4, amended. With handle "jsmith", an empty given name and family name "Smith"
  the name shown is "jsmith"; with all three fields empty it is "User " followed by the
  owner id as Python prints it.
\<close>

theorem owner_display_examples:
  "search_command_owner_display owner_id (Some ''jsmith'') (Some '''') (Some ''Smith'') = ''jsmith'' \<and>
   search_command_owner_display owner_id (Some '''') (Some '''') (Some '''') =
     ''User '' @ str_opt_int owner_id"
  by (simp add: search_command_owner_display_def and_strip_def strip_def py_isspace_def)

theorem owner_display_examples_witness:
  "search_command_owner_display (Some 7) (Some ''jsmith'') (Some '''') (Some ''Smith'') = ''jsmith'' \<and>
   search_command_owner_display (Some 7) (Some '''') (Some '''') (Some '''') = ''User 7''"
  using owner_display_examples [of "Some 7"]
  by (simp add: str_opt_int_def str_int_def digits.simps)

text \<open>
  Claim C5, evaluated where the code departs from it. User 7 has no handle, an empty
  given name and the family name "Smith". As the owner of an item found by
  \<^verbatim>\<open>search_command\<close> the user is shown as "Smith"; as the requester listed by
  \<^verbatim>\<open>pending_requests_command\<close> the same user is shown as "User 7", and
  \<^verbatim>\<open>my_requests_command\<close> shows such an owner as "User 7" too: the two request listings
  have no family-name step.
\<close>

theorem requester_display_skips_family_name:
  "search_command_owner_displays
     (run init_database
        [Add_user ''t'' 1 (Some ''ann'') (Some ''Ann'') None,
         Add_user ''t'' 7 None (Some '''') (Some ''Smith''),
         Add_dgsc ''t'' ''t'' ''A'' '''' 7,
         Add_dgsc ''t'' ''t'' ''B'' '''' 1,
         Create_request ''t'' 2 7 1 ''''])
     ''A'' = [''Smith''] \<and>
   pending_requests_requester_displays
     (run init_database
        [Add_user ''t'' 1 (Some ''ann'') (Some ''Ann'') None,
         Add_user ''t'' 7 None (Some '''') (Some ''Smith''),
         Add_dgsc ''t'' ''t'' ''A'' '''' 7,
         Add_dgsc ''t'' ''t'' ''B'' '''' 1,
         Create_request ''t'' 2 7 1 ''''])
     1 = [''User 7''] \<and>
   my_requests_owner_display 7 None (Some '''') = ''User 7''"
  by (simp add: store_defs search_command_owner_displays_def search_dgsc_def left_join_users_def
      select_search_row_def like_null_def sqlite_tolower_def
      pending_requests_requester_displays_def get_pending_requests_for_user_def
      search_command_owner_display_def pending_requests_requester_display_def
      my_requests_owner_display_def and_strip_def strip_def py_isspace_def
      str_int_def digits.simps)

section \<open>The life of a request\<close>

lemma find_Some_mem: "find P xs = Some x \<Longrightarrow> x \<in> set xs \<and> P x"
  unfolding find_Some_iff by (metis nth_mem)

lemma requests_accept_request_cases:
  assumes d: "distinct (map r_id (requests db))"
  shows "accept_request db n1 n2 rid = (False, db) \<or>
    (\<exists>q. q \<in> set (requests db) \<and> r_id q = rid \<and> r_status q = Some ''pending'' \<and>
       requests (snd (accept_request db n1 n2 rid)) =
         map (\<lambda>x. if x = q
                   then q\<lparr>r_status := Some ''accepted'', r_resolved_at := Some n1\<rparr> else x)
           (requests db))"
proof (cases "find (\<lambda>r. r_id r = rid \<and> r_status r = Some ''pending'') (requests db)")
  case None
  then show ?thesis by (simp add: accept_request_def)
next
  case (Some q)
  from find_Some_mem [OF Some]
  have q: "q \<in> set (requests db)" "r_id q = rid" "r_status q = Some ''pending''"
    by simp_all
  from accept_request_found [OF d q(1) q(3), of n1 n2]
  have "requests (snd (accept_request db n1 n2 rid)) =
         map (\<lambda>x. if x = q
                   then q\<lparr>r_status := Some ''accepted'', r_resolved_at := Some n1\<rparr> else x)
           (requests db)"
    unfolding q(2) by simp
  with q show ?thesis by blast
qed

text \<open>A row that is not pending stays in the table, whatever the call.\<close>

lemma resolved_row_stays:
  assumes d: "distinct (map r_id (requests db))"
    and r: "r \<in> set (requests db)" "r_status r \<noteq> Some ''pending''"
  shows "r \<in> set (requests (step db c))"
proof (cases c)
  case (Add_user n uid un fn ln)
  with r(1) show ?thesis by simp
next
  case (Add_dgsc n1 n2 name de ow)
  with r(1) show ?thesis by simp
next
  case (Create_request n i rq ow m)
  with r(1) show ?thesis by (simp add: requests_create_request)
next
  case (Accept_request n1 n2 rid)
  from requests_accept_request_cases [OF d, of n1 n2 rid] show ?thesis
  proof
    assume "accept_request db n1 n2 rid = (False, db)"
    with Accept_request r(1) show ?thesis by simp
  next
    assume "\<exists>q. q \<in> set (requests db) \<and> r_id q = rid \<and> r_status q = Some ''pending'' \<and>
       requests (snd (accept_request db n1 n2 rid)) =
         map (\<lambda>x. if x = q
                   then q\<lparr>r_status := Some ''accepted'', r_resolved_at := Some n1\<rparr> else x)
           (requests db)"
    then obtain q where q: "r_status q = Some ''pending''"
      and eq: "requests (snd (accept_request db n1 n2 rid)) =
         map (\<lambda>x. if x = q
                   then q\<lparr>r_status := Some ''accepted'', r_resolved_at := Some n1\<rparr> else x)
           (requests db)"
      by blast
    from q r(2) have "r \<noteq> q" by auto
    then have "r = (if r = q
                   then q\<lparr>r_status := Some ''accepted'', r_resolved_at := Some n1\<rparr> else r)"
      by simp
    with r(1) have "r \<in> set (requests (snd (accept_request db n1 n2 rid)))"
      unfolding eq set_map by (rule image_eqI [rotated])
    with Accept_request show ?thesis by simp
  qed
next
  case (Reject_request n rid)
  have "r = (if r_id r = rid \<and> r_status r = Some ''pending''
             then r\<lparr>r_status := Some ''rejected'', r_resolved_at := Some n\<rparr> else r)"
    using r(2) by simp
  with r(1) have "r \<in> set (requests (snd (reject_request db n rid)))"
    unfolding requests_reject_request set_map by (rule image_eqI [rotated])
  with Reject_request show ?thesis by simp
qed

lemma reachable_run: "reachable db \<Longrightarrow> reachable (run db cs)"
proof (induction cs arbitrary: db)
  case Nil
  then show ?case by (simp add: run_def)
next
  case (Cons c cs)
  from Cons.prems have "reachable (step db c)" by (rule reachable_step)
  then have "reachable (run (step db c) cs)" by (rule Cons.IH)
  then show ?case by (simp add: run_def)
qed

lemma resolved_row_stays_run:
  assumes "reachable db" "r \<in> set (requests db)" "r_status r \<noteq> Some ''pending''"
  shows "r \<in> set (requests (run db cs))"
  using assms
proof (induction cs arbitrary: db)
  case Nil
  then show ?case by (simp add: run_def)
next
  case (Cons c cs)
  from Cons.prems(1) have d: "distinct (map r_id (requests db))"
    by (rule reachable_distinct_request_ids)
  from Cons.prems(1) have "reachable (step db c)" by (rule reachable_step)
  moreover have "r \<in> set (requests (step db c))"
    using d Cons.prems(2,3) by (rule resolved_row_stays)
  ultimately have "r \<in> set (requests (run (step db c) cs))"
    using Cons.prems(3) by (rule Cons.IH)
  then show ?case by (simp add: run_def)
qed

lemma reject_request_not_found:
  assumes "\<forall>q\<in>set (requests db). \<not> (r_id q = rid \<and> r_status q = Some ''pending'')"
  shows "reject_request db now rid = (False, db)"
proof -
  from assms have "filter (\<lambda>r. r_id r = rid \<and> r_status r = Some ''pending'') (requests db) = []"
    by (simp add: filter_empty_conv)
  moreover from assms
  have "map (\<lambda>r. if r_id r = rid \<and> r_status r = Some ''pending''
                  then r\<lparr>r_status := Some ''rejected'', r_resolved_at := Some now\<rparr> else r)
          (requests db) = requests db"
    by (rule map_no_hit)
  ultimately show ?thesis by (simp add: reject_request_def Let_def)
qed

lemma no_pending_row_with_id:
  assumes d: "distinct (map r_id (requests db))"
    and r: "r \<in> set (requests db)" "r_status r \<noteq> Some ''pending''"
  shows "\<forall>q\<in>set (requests db). \<not> (r_id q = r_id r \<and> r_status q = Some ''pending'')"
proof (intro ballI notI)
  fix q
  assume q: "q \<in> set (requests db)" and h: "r_id q = r_id r \<and> r_status q = Some ''pending''"
  from distinct_map_eq [OF d q r(1)] h have "q = r" by blast
  with h r(2) show False by blast
qed

lemma reachable_request_status:
  "reachable db \<Longrightarrow>
   \<forall>q\<in>set (requests db).
     r_status q = Some ''pending'' \<or> r_status q = Some ''accepted'' \<or> r_status q = Some ''rejected''"
proof (induction rule: reachable.induct)
  case reachable_init
  show ?case by (simp add: init_database_def)
next
  case (reachable_step db c)
  show ?case
  proof (cases c)
    case (Add_user n uid un fn ln)
    with reachable_step.IH show ?thesis by simp
  next
    case (Add_dgsc n1 n2 name de ow)
    with reachable_step.IH show ?thesis by simp
  next
    case (Create_request n i rq ow m)
    with reachable_step.IH show ?thesis by (simp add: requests_create_request)
  next
    case (Accept_request n1 n2 rid)
    from requests_accept_request [of db n1 n2 rid] show ?thesis
    proof
      assume "requests (snd (accept_request db n1 n2 rid)) = requests db"
      with Accept_request reachable_step.IH show ?thesis by simp
    next
      assume "requests (snd (accept_request db n1 n2 rid)) =
        map (\<lambda>q. if r_id q = rid
                  then q\<lparr>r_status := Some ''accepted'', r_resolved_at := Some n1\<rparr> else q)
          (requests db)"
      with Accept_request reachable_step.IH show ?thesis by auto
    qed
  next
    case (Reject_request n rid)
    with reachable_step.IH show ?thesis by (auto simp add: requests_reject_request)
  qed
qed

lemma step_request_transition:
  assumes d: "distinct (map r_id (requests db))"
    and r: "r \<in> set (requests db)"
    and r': "r' \<in> set (requests (step db c))" "r_id r' = r_id r"
  shows "r' = r \<or>
    (r_status r = Some ''pending'' \<and>
      ((\<exists>now1 now2. c = Accept_request now1 now2 (r_id r) \<and>
          r' = r\<lparr>r_status := Some ''accepted'', r_resolved_at := Some now1\<rparr>) \<or>
       (\<exists>now. c = Reject_request now (r_id r) \<and>
          r' = r\<lparr>r_status := Some ''rejected'', r_resolved_at := Some now\<rparr>)))"
proof -
  have old: "r' = r" if "r' \<in> set (requests db)"
    using distinct_map_eq [OF d that r] r'(2) by blast
  show ?thesis
  proof (cases c)
    case (Add_user n uid un fn ln)
    with r'(1) have "r' \<in> set (requests db)" by simp
    then show ?thesis using old by blast
  next
    case (Add_dgsc n1 n2 name de ow)
    with r'(1) have "r' \<in> set (requests db)" by simp
    then show ?thesis using old by blast
  next
    case (Create_request n i rq ow m)
    with r'(1) have "r' \<in> set (requests db) \<or>
        r_id r' = next_rowid (seq_requests db) (map r_id (requests db))"
      by (auto simp add: requests_create_request)
    moreover have "r_id r' \<noteq> next_rowid (seq_requests db) (map r_id (requests db))"
      using next_rowid_notin [of "seq_requests db" "map r_id (requests db)"] r r'(2) by force
    ultimately have "r' \<in> set (requests db)" by blast
    then show ?thesis using old by blast
  next
    case (Accept_request n1 n2 rid)
    from requests_accept_request_cases [OF d, of n1 n2 rid] show ?thesis
    proof
      assume "accept_request db n1 n2 rid = (False, db)"
      with Accept_request r'(1) have "r' \<in> set (requests db)" by simp
      then show ?thesis using old by blast
    next
      assume "\<exists>q. q \<in> set (requests db) \<and> r_id q = rid \<and> r_status q = Some ''pending'' \<and>
         requests (snd (accept_request db n1 n2 rid)) =
           map (\<lambda>x. if x = q
                     then q\<lparr>r_status := Some ''accepted'', r_resolved_at := Some n1\<rparr> else x)
             (requests db)"
      then obtain q where q: "q \<in> set (requests db)" "r_id q = rid" "r_status q = Some ''pending''"
        and eq: "requests (snd (accept_request db n1 n2 rid)) =
           map (\<lambda>x. if x = q
                     then q\<lparr>r_status := Some ''accepted'', r_resolved_at := Some n1\<rparr> else x)
             (requests db)"
        by blast
      from r'(1) Accept_request eq
      have "r' \<in> set (requests db) \<or>
            r' = q\<lparr>r_status := Some ''accepted'', r_resolved_at := Some n1\<rparr>"
        by auto
      then show ?thesis
      proof
        assume "r' \<in> set (requests db)"
        then show ?thesis using old by blast
      next
        assume new: "r' = q\<lparr>r_status := Some ''accepted'', r_resolved_at := Some n1\<rparr>"
        then have "r_id q = r_id r" using r'(2) by simp
        with distinct_map_eq [OF d q(1) r] have "q = r" by blast
        with new q Accept_request show ?thesis by blast
      qed
    qed
  next
    case (Reject_request n rid)
    from r'(1) Reject_request
    have "r' \<in> set (requests db) \<or>
          (\<exists>q\<in>set (requests db). r_id q = rid \<and> r_status q = Some ''pending'' \<and>
             r' = q\<lparr>r_status := Some ''rejected'', r_resolved_at := Some n\<rparr>)"
      by (auto simp add: requests_reject_request split: if_splits)
    then show ?thesis
    proof
      assume "r' \<in> set (requests db)"
      then show ?thesis using old by blast
    next
      assume "\<exists>q\<in>set (requests db). r_id q = rid \<and> r_status q = Some ''pending'' \<and>
             r' = q\<lparr>r_status := Some ''rejected'', r_resolved_at := Some n\<rparr>"
      then obtain q where q: "q \<in> set (requests db)" "r_id q = rid" "r_status q = Some ''pending''"
        and new: "r' = q\<lparr>r_status := Some ''rejected'', r_resolved_at := Some n\<rparr>"
        by blast
      from new have "r_id q = r_id r" using r'(2) by simp
      with distinct_map_eq [OF d q(1) r] have "q = r" by blast
      with new q Reject_request show ?thesis by blast
    qed
  qed
qed

text \<open>
  Claim C2. For a request row of a reachable store: its status is \<^verbatim>\<open>pending\<close>,
  \<^verbatim>\<open>accepted\<close> or \<^verbatim>\<open>rejected\<close>; after any one call the row with its id is either the same
  row, or the row was pending and the call was \<^verbatim>\<open>accept_request\<close> on its id, which made
  it \<^verbatim>\<open>accepted\<close>, or \<^verbatim>\<open>reject_request\<close> on its id, which made it \<^verbatim>\<open>rejected\<close>, each with
  the resolution time; and once the row is not pending, it is still there unchanged, and
  alone with its id, after any sequence of calls, where \<^verbatim>\<open>accept_request\<close> and
  \<^verbatim>\<open>reject_request\<close> on its id return \<^verbatim>\<open>False\<close> and leave the store as it is. Both are
  total functions of the store: no branch of them raises.
\<close>

theorem request_status_lifecycle:
  assumes "reachable db" and "r \<in> set (requests db)"
  shows "r_status r \<in> {Some ''pending'', Some ''accepted'', Some ''rejected''} \<and>
    (\<forall>r'\<in>set (requests (step db c)). r_id r' = r_id r \<longrightarrow>
       r' = r \<or>
       (r_status r = Some ''pending'' \<and>
         ((\<exists>now1 now2. c = Accept_request now1 now2 (r_id r) \<and>
             r' = r\<lparr>r_status := Some ''accepted'', r_resolved_at := Some now1\<rparr>) \<or>
          (\<exists>now. c = Reject_request now (r_id r) \<and>
             r' = r\<lparr>r_status := Some ''rejected'', r_resolved_at := Some now\<rparr>)))) \<and>
    (r_status r \<noteq> Some ''pending'' \<longrightarrow>
       r \<in> set (requests (run db cs)) \<and>
       (\<forall>r'\<in>set (requests (run db cs)). r_id r' = r_id r \<longrightarrow> r' = r) \<and>
       accept_request (run db cs) now1 now2 (r_id r) = (False, run db cs) \<and>
       reject_request (run db cs) now3 (r_id r) = (False, run db cs))"
proof (intro conjI ballI impI)
  from reachable_request_status [OF assms(1)] assms(2)
  show "r_status r \<in> {Some ''pending'', Some ''accepted'', Some ''rejected''}"
    by blast
next
  fix r'
  assume "r' \<in> set (requests (step db c))" "r_id r' = r_id r"
  with reachable_distinct_request_ids [OF assms(1)] assms(2)
  show "r' = r \<or>
       (r_status r = Some ''pending'' \<and>
         ((\<exists>now1 now2. c = Accept_request now1 now2 (r_id r) \<and>
             r' = r\<lparr>r_status := Some ''accepted'', r_resolved_at := Some now1\<rparr>) \<or>
          (\<exists>now. c = Reject_request now (r_id r) \<and>
             r' = r\<lparr>r_status := Some ''rejected'', r_resolved_at := Some now\<rparr>)))"
    by (rule step_request_transition)
next
  assume res: "r_status r \<noteq> Some ''pending''"
  from assms(1) have reach: "reachable (run db cs)" by (rule reachable_run)
  then have d: "distinct (map r_id (requests (run db cs)))"
    by (rule reachable_distinct_request_ids)
  from assms res show mem: "r \<in> set (requests (run db cs))"
    by (rule resolved_row_stays_run)
  note none = no_pending_row_with_id [OF d mem res]
  from none show "accept_request (run db cs) now1 now2 (r_id r) = (False, run db cs)"
    by (rule accept_request_not_found)
  from none show "reject_request (run db cs) now3 (r_id r) = (False, run db cs)"
    by (rule reject_request_not_found)
  fix r'
  assume "r' \<in> set (requests (run db cs))" "r_id r' = r_id r"
  with distinct_map_eq [OF d _ mem, of r'] show "r' = r" by blast
qed

theorem request_status_lifecycle_witness:
  "reachable (run init_database [Create_request ''t1'' 1 2 1 ''hi'', Reject_request ''t2'' 1]) \<and>
   requests (run init_database [Create_request ''t1'' 1 2 1 ''hi'', Reject_request ''t2'' 1]) =
     [\<lparr>r_id = 1, r_pendrive_id = 1, r_requester_id = 2, r_current_owner_id = 1,
       r_status = Some ''rejected'', r_message = Some ''hi'', r_created_at = Some ''t1'',
       r_resolved_at = Some ''t2''\<rparr>] \<and>
   requests (run (run init_database [Create_request ''t1'' 1 2 1 ''hi'', Reject_request ''t2'' 1])
               [Accept_request ''t3'' ''t4'' 1, Reject_request ''t5'' 1]) =
     [\<lparr>r_id = 1, r_pendrive_id = 1, r_requester_id = 2, r_current_owner_id = 1,
       r_status = Some ''rejected'', r_message = Some ''hi'', r_created_at = Some ''t1'',
       r_resolved_at = Some ''t2''\<rparr>] \<and>
   fst (accept_request
     (run (run init_database [Create_request ''t1'' 1 2 1 ''hi'', Reject_request ''t2'' 1])
        [Accept_request ''t3'' ''t4'' 1, Reject_request ''t5'' 1]) ''t6'' ''t7'' 1) = False \<and>
   fst (reject_request
     (run (run init_database [Create_request ''t1'' 1 2 1 ''hi'', Reject_request ''t2'' 1])
        [Accept_request ''t3'' ''t4'' 1, Reject_request ''t5'' 1]) ''t8'' 1) = False \<and>
   reachable (run init_database [Create_request ''t1'' 1 2 1 ''hi'']) \<and>
   map (\<lambda>q. (r_id q, r_status q, r_resolved_at q))
     (requests (run init_database [Create_request ''t1'' 1 2 1 ''hi''])) =
     [(1, Some ''pending'', None)] \<and>
   map (\<lambda>q. (r_id q, r_status q, r_resolved_at q))
     (requests (step (run init_database [Create_request ''t1'' 1 2 1 ''hi''])
        (Accept_request ''t3'' ''t4'' 1))) =
     [(1, Some ''accepted'', Some ''t3'')]"
proof -
  let ?p = "\<lparr>r_id = 1, r_pendrive_id = 1, r_requester_id = 2, r_current_owner_id = 1,
       r_status = Some ''pending'', r_message = Some ''hi'', r_created_at = Some ''t1'',
       r_resolved_at = None\<rparr>"
  have "reachable (step init_database (Create_request ''t1'' 1 2 1 ''hi''))"
    by (intro reachable.intros)
  then have reach1: "reachable (run init_database [Create_request ''t1'' 1 2 1 ''hi''])"
    by (simp only: run_def foldl.simps)
  have p: "?p \<in> set (requests (run init_database [Create_request ''t1'' 1 2 1 ''hi'']))"
    by (simp add: store_defs)
  note pending = request_status_lifecycle [OF reach1 p, of "Accept_request ''t3'' ''t4'' 1" "[]"
      "''t6''" "''t7''" "''t8''"]
  let ?c1 = "Create_request ''t1'' 1 2 1 ''hi''"
  let ?c2 = "Reject_request ''t2'' 1"
  let ?r = "\<lparr>r_id = 1, r_pendrive_id = 1, r_requester_id = 2, r_current_owner_id = 1,
       r_status = Some ''rejected'', r_message = Some ''hi'', r_created_at = Some ''t1'',
       r_resolved_at = Some ''t2''\<rparr>"
  have "reachable (step (step init_database ?c1) ?c2)"
    by (intro reachable.intros)
  then have reach: "reachable (run init_database [?c1, ?c2])"
    by (simp only: run_def foldl.simps)
  have r: "?r \<in> set (requests (run init_database [?c1, ?c2]))"
    by (simp add: store_defs)
  from reach reach1 pending request_status_lifecycle [OF reach r,
      of "Accept_request ''t3'' ''t4'' 1" "[Accept_request ''t3'' ''t4'' 1, Reject_request ''t5'' 1]"
         "''t6''" "''t7''" "''t8''"]
  show ?thesis
    by (simp add: store_defs)
qed

section \<open>Searching items\<close>












end
